theory Spec2Isabelle
  imports Main "HOL-Library.Multiset" "HOL-Library.AList"
begin

section \<open>The grid shuffler of \<^verbatim>\<open>grid_shuffler_alg.hpp\<close>\<close>

text \<open>
  The class \<^verbatim>\<open>GridShuffler\<close> rearranges the labels of the non-empty cells of a grid so
  that no label returns to its original cell and no two labels that were orthogonal
  neighbours in the input become neighbours again.  The embedding below follows the
  header \<^verbatim>\<open>src/cpp/grid_shuffler_alg.hpp\<close>, the version that the Python binding
  (\<^verbatim>\<open>export_lib.cpp\<close>) and the tests include.  (\<^verbatim>\<open>grid_shuffler_alg.cpp\<close> is an earlier
  stand-alone copy of the class with its own binding; nothing includes it.)  The member
  \<^verbatim>\<open>assignment\<close> is declared and never used; it stays empty.

  Modelling decisions:
  \<^item> \<^verbatim>\<open>Position = std::pair<int,int>\<close> is a pair of integers; indices are unbounded
    (\<^verbatim>\<open>int\<close> does not wrap for grids of fewer than \<open>2^31\<close> rows and columns).
  \<^item> \<^verbatim>\<open>std::unordered_map\<close> is an association list with distinct keys, read with
    \<^const>\<open>map_of\<close> and written with \<^const>\<open>AList.update\<close>; \<^verbatim>\<open>std::unordered_set\<close> is a set.
  \<^item> \<^verbatim>\<open>operator[]\<close> of a vector past its end is undefined behaviour in C++; \<^verbatim>\<open>at()\<close> of a map
    on a missing key throws \<^verbatim>\<open>std::out_of_range\<close>.  Both are outcomes of the model.
  \<^item> The process-wide \<^verbatim>\<open>std::mt19937\<close> is an explicit argument: a function that gives,
    for each position, the outcome of \<^verbatim>\<open>std::ranges::shuffle\<close> on that position's
    candidate list.  All that is known of it is that it permutes its argument.
\<close>

subsection \<open>Data\<close>

type_synonym Position = "int \<times> int"
type_synonym Grid = "string list list"
type_synonym Assignment = "(Position \<times> string) list"
type_synonym Domains = "(Position \<times> string list) list"
type_synonym Shuffler = "Position \<Rightarrow> string list \<Rightarrow> string list"

datatype fault = UndefinedBehaviour | OutOfRange

record GridShuffler =
  original_grid :: Grid
  shuffled_grid :: Grid
  non_empty_positions :: "Position list"
  forbidden_neighbors :: "(string \<times> string set) list"
  neighbors_map :: "(Position \<times> Position list) list"
  assignment :: Assignment
  original_positions :: "(string \<times> Position) list"
  rows :: nat
  cols :: nat

text \<open>\<^verbatim>\<open>grid[i][j]\<close> for a position \<open>(i, j)\<close>.\<close>

definition cell :: "Grid \<Rightarrow> Position \<Rightarrow> string" where
  "cell g p = g ! nat (fst p) ! nat (snd p)"

text \<open>\<^verbatim>\<open>m[k]\<close> on a map: the stored value, or the default-constructed one.\<close>

definition lookup_default :: "('k \<times> 'v) list \<Rightarrow> 'k \<Rightarrow> 'v \<Rightarrow> 'v" where
  "lookup_default m k d = (case map_of m k of Some v \<Rightarrow> v | None \<Rightarrow> d)"

subsection \<open>Construction\<close>

definition directions :: "(int \<times> int) list" where
  "directions = [(-1, 0), (1, 0), (0, -1), (0, 1)]"

text \<open>The double loop \<^verbatim>\<open>for i < rows: for j < cols\<close>: all cells in row-major order.\<close>

definition cells :: "nat \<Rightarrow> nat \<Rightarrow> Position list" where
  "cells r c = concat (map (\<lambda>i. map (\<lambda>j. (int i, int j)) [0..<c]) [0..<r])"

text \<open>
  The inner loop over \<^verbatim>\<open>directions\<close> shared by \<^verbatim>\<open>buildForbiddenNeighbors\<close> and
  \<^verbatim>\<open>buildNeighborsMap\<close>: the in-bounds, non-empty orthogonal neighbours of a cell, in
  the order up, down, left, right.
\<close>

definition grid_neighbors :: "Grid \<Rightarrow> nat \<Rightarrow> nat \<Rightarrow> Position \<Rightarrow> Position list" where
  "grid_neighbors g r c p =
     filter (\<lambda>n. 0 \<le> fst n \<and> fst n < int r \<and> 0 \<le> snd n \<and> snd n < int c \<and> cell g n \<noteq> [])
       (map (\<lambda>d. (fst p + fst d, snd p + snd d)) directions)"

text \<open>
  \<^verbatim>\<open>buildForbiddenNeighbors\<close>: every non-empty cell resets the entry of its label to the
  empty set and then inserts the labels of its neighbours.
\<close>

definition forbidden_step :: "Grid \<Rightarrow> nat \<Rightarrow> nat \<Rightarrow> Position \<Rightarrow>
    (string \<times> string set) list \<Rightarrow> (string \<times> string set) list" where
  "forbidden_step g r c p f =
     (let tar = cell g p in
      if tar = [] then f
      else AList.update tar (set (map (cell g) (grid_neighbors g r c p))) f)"

definition buildForbiddenNeighbors :: "GridShuffler \<Rightarrow> GridShuffler" where
  "buildForbiddenNeighbors E =
     E\<lparr>forbidden_neighbors :=
         fold (forbidden_step (original_grid E) (rows E) (cols E))
           (cells (rows E) (cols E)) (forbidden_neighbors E)\<rparr>"

definition buildNonEmptyPositions :: "GridShuffler \<Rightarrow> GridShuffler" where
  "buildNonEmptyPositions E =
     E\<lparr>non_empty_positions :=
         non_empty_positions E @
         filter (\<lambda>p. cell (original_grid E) p \<noteq> []) (cells (rows E) (cols E))\<rparr>"

definition buildNeighborsMap :: "GridShuffler \<Rightarrow> GridShuffler" where
  "buildNeighborsMap E =
     E\<lparr>neighbors_map :=
         fold (\<lambda>pos m. AList.update pos
                 (grid_neighbors (original_grid E) (rows E) (cols E) pos) m)
           (non_empty_positions E) (neighbors_map E)\<rparr>"

definition original_step :: "Grid \<Rightarrow> Position \<Rightarrow>
    (string \<times> Position) list \<Rightarrow> (string \<times> Position) list" where
  "original_step g p m =
     (let tar = cell g p in if tar = [] then m else AList.update tar p m)"

definition buildOriginalPositions :: "GridShuffler \<Rightarrow> GridShuffler" where
  "buildOriginalPositions E =
     E\<lparr>original_positions :=
         fold (original_step (original_grid E)) (cells (rows E) (cols E))
           (original_positions E)\<rparr>"

text \<open>
  The constructor.  It takes \<^verbatim>\<open>rows = grid.size()\<close> and \<^verbatim>\<open>cols = grid[0].size()\<close> and
  checks nothing.  The builders read \<^verbatim>\<open>original_grid[i][j]\<close> for every \<open>i < rows\<close> and
  \<open>j < cols\<close>, so a row shorter than the first one is read past its end: undefined
  behaviour, the outcome \<^const>\<open>UndefinedBehaviour\<close>.  Cells of a longer row beyond column
  \<open>cols\<close> are never read.
\<close>

definition construct :: "Grid \<Rightarrow> fault + GridShuffler" where
  "construct grid =
     (let r = length grid;
          c = (if r > 0 then length (grid ! 0) else 0)
      in if list_ex (\<lambda>row. length row < c) grid then Inl UndefinedBehaviour
         else Inr (buildOriginalPositions (buildNeighborsMap (buildNonEmptyPositions
                (buildForbiddenNeighbors
                  \<lparr>original_grid = grid,
                   shuffled_grid = replicate r (replicate c []),
                   non_empty_positions = [],
                   forbidden_neighbors = [],
                   neighbors_map = [],
                   assignment = [],
                   original_positions = [],
                   rows = r,
                   cols = c\<rparr>)))))"

subsection \<open>The search\<close>

text \<open>
  \<^verbatim>\<open>isValidAssignment\<close>: a candidate is refused when an already assigned neighbour holds
  a label of the candidate's forbidden set, or when the position is the candidate's
  original position.  Nothing looks at whether the candidate is already in use.
\<close>

definition isValidAssignment :: "GridShuffler \<Rightarrow> Position \<Rightarrow> string \<Rightarrow> Assignment \<Rightarrow> bool" where
  "isValidAssignment E pos digit current_assignment =
     (if list_ex (\<lambda>neighbor.
            case map_of current_assignment neighbor of
              Some neighbor_digit \<Rightarrow>
                neighbor_digit \<in> lookup_default (forbidden_neighbors E) digit {}
            | None \<Rightarrow> False)
          (lookup_default (neighbors_map E) pos [])
      then False
      else (case map_of (original_positions E) digit of
              Some p \<Rightarrow> p \<noteq> pos
            | None \<Rightarrow> True))"

text \<open>\<^verbatim>\<open>std::ranges::min_element\<close>: the first element that no later element is less than.\<close>

fun min_element_from :: "('a \<Rightarrow> 'a \<Rightarrow> bool) \<Rightarrow> 'a \<Rightarrow> 'a list \<Rightarrow> 'a" where
  "min_element_from lt smallest [] = smallest"
| "min_element_from lt smallest (x # xs) =
     min_element_from lt (if lt x smallest then x else smallest) xs"

fun min_element :: "('a \<Rightarrow> 'a \<Rightarrow> bool) \<Rightarrow> 'a list \<Rightarrow> 'a option" where
  "min_element lt [] = None"
| "min_element lt (x # xs) = Some (min_element_from lt x xs)"

text \<open>The comparator of the selection: unassigned before assigned, then smaller domain.\<close>

definition mrv_less :: "Domains \<Rightarrow> Assignment \<Rightarrow> Position \<Rightarrow> Position \<Rightarrow> bool" where
  "mrv_less possible_digits current_assignment a b =
     (map_of current_assignment a = None \<and>
      (map_of current_assignment b \<noteq> None \<or>
       length (lookup_default possible_digits a []) < length (lookup_default possible_digits b [])))"

definition select_position :: "GridShuffler \<Rightarrow> Domains \<Rightarrow> Assignment \<Rightarrow> Position option" where
  "select_position E possible_digits current_assignment =
     min_element (mrv_less possible_digits current_assignment) (non_empty_positions E)"

text \<open>
  \<^verbatim>\<open>backtrack\<close> as the C++ has it: one map, mutated in place.  The loop over the
  candidates inserts the selected position, recurses, and erases the position when
  the recursive call returns false; the map after the call is part of the result.
  The first argument of \<open>backtrack_in_place\<close> bounds the recursion depth; \<open>None\<close> means
  the bound was reached before the search returned.
\<close>

fun try_candidates :: "(Assignment \<Rightarrow> (bool \<times> Assignment) option) \<Rightarrow> GridShuffler \<Rightarrow> Position \<Rightarrow>
    string list \<Rightarrow> Assignment \<Rightarrow> (bool \<times> Assignment) option" where
  "try_candidates recurse E pos [] current_assignment = Some (False, current_assignment)"
| "try_candidates recurse E pos (digit # digits) current_assignment =
     (if isValidAssignment E pos digit current_assignment
      then (case recurse (AList.update pos digit current_assignment) of
              None \<Rightarrow> None
            | Some (True, a) \<Rightarrow> Some (True, a)
            | Some (False, a) \<Rightarrow> try_candidates recurse E pos digits (AList.delete pos a))
      else try_candidates recurse E pos digits current_assignment)"

fun backtrack_in_place :: "nat \<Rightarrow> GridShuffler \<Rightarrow> Domains \<Rightarrow> Assignment \<Rightarrow>
    (bool \<times> Assignment) option" where
  "backtrack_in_place 0 E possible_digits current_assignment = None"
| "backtrack_in_place (Suc depth) E possible_digits current_assignment =
     (if length current_assignment = length (non_empty_positions E)
      then Some (True, current_assignment)
      else case select_position E possible_digits current_assignment of
             None \<Rightarrow> Some (False, current_assignment)
           | Some pos \<Rightarrow>
               if map_of current_assignment pos \<noteq> None then Some (False, current_assignment)
               else try_candidates (backtrack_in_place depth E possible_digits) E pos
                      (lookup_default possible_digits pos []) current_assignment)"

text \<open>
  The same search with the map passed by value.  The candidate loop with its early
  \<^verbatim>\<open>return true\<close> becomes: the first candidate whose body succeeds decides the result.
\<close>

fun first_success :: "('a \<Rightarrow> 'b option) \<Rightarrow> 'a list \<Rightarrow> 'b option" where
  "first_success f [] = None"
| "first_success f (x # xs) = (case f x of Some r \<Rightarrow> Some r | None \<Rightarrow> first_success f xs)"

lemma first_success_cong [fundef_cong]:
  "xs = ys \<Longrightarrow> (\<And>x. x \<in> set ys \<Longrightarrow> f x = g x) \<Longrightarrow> first_success f xs = first_success g ys"
  by (induction ys arbitrary: xs) (auto split: option.splits)

text \<open>
  The selected position is not in the map (line 109 returns otherwise), so inserting
  and erasing it leaves the map as it was, and a failed call returns the map it was
  given.  The by-value function returns the completed assignment (\<^verbatim>\<open>true\<close>) or \<open>None\<close>
  (\<^verbatim>\<open>false\<close>); \<open>backtrack_in_place_by_value\<close> below proves that the in-place search
  returns exactly \<open>by_value_result\<close> of it.
\<close>

function backtrack :: "GridShuffler \<Rightarrow> Domains \<Rightarrow> Assignment \<Rightarrow> Assignment option" where
  "backtrack E possible_digits current_assignment =
     (if length current_assignment = length (non_empty_positions E) then Some current_assignment
      else case select_position E possible_digits current_assignment of
             None \<Rightarrow> None
           | Some pos \<Rightarrow>
               if map_of current_assignment pos \<noteq> None then None
               else first_success
                      (\<lambda>digit.
                         if isValidAssignment E pos digit current_assignment
                         then backtrack E possible_digits
                                (AList.update pos digit current_assignment)
                         else None)
                      (lookup_default possible_digits pos []))"
  by pat_completeness auto

lemma min_element_from_mem: "min_element_from lt s xs \<in> set (s # xs)"
  by (induction xs arbitrary: s) auto

lemma min_element_mem: "min_element lt xs = Some p \<Longrightarrow> p \<in> set xs"
  using min_element_from_mem [of lt] by (cases xs) auto

lemma select_position_mem:
  "select_position E pd asg = Some pos \<Longrightarrow> pos \<in> set (non_empty_positions E)"
  unfolding select_position_def by (rule min_element_mem)

text \<open>The number of non-empty positions that the assignment does not cover.\<close>

definition unassigned :: "GridShuffler \<Rightarrow> Assignment \<Rightarrow> nat" where
  "unassigned E asg = card (set (non_empty_positions E) - fst ` set asg)"

lemma unassigned_update:
  assumes "pos \<in> set (non_empty_positions E)" "map_of asg pos = None"
  shows "unassigned E (AList.update pos digit asg) < unassigned E asg"
proof -
  have "pos \<notin> fst ` set asg"
    using assms(2) by (simp add: map_of_eq_None_iff)
  then have "set (non_empty_positions E) - fst ` set (AList.update pos digit asg)
      \<subset> set (non_empty_positions E) - fst ` set asg"
    using assms(1) by (auto simp: dom_update)
  then show ?thesis
    unfolding unassigned_def by (intro psubset_card_mono) auto
qed

lemma backtrack_total: "All backtrack_dom"
proof (relation "measure (\<lambda>(E, pd, asg). unassigned E asg)", goal_cases)
  case 1
  show ?case by simp
next
  case (2 E pd asg pos digit)
  then show ?case
    by (auto intro!: unassigned_update select_position_mem)
qed

termination backtrack
  by (rule backtrack_total)

declare backtrack.simps [simp del]

text \<open>What the in-place search returns, read off the by-value one.\<close>

definition by_value_result :: "GridShuffler \<Rightarrow> Domains \<Rightarrow> Assignment \<Rightarrow> bool \<times> Assignment" where
  "by_value_result E pd asg =
     (case backtrack E pd asg of Some res \<Rightarrow> (True, res) | None \<Rightarrow> (False, asg))"

subsection \<open>The public operations\<close>

text \<open>A random source is a shuffler when every outcome is a permutation of its input.\<close>

definition is_shuffler :: "Shuffler \<Rightarrow> bool" where
  "is_shuffler mt = (\<forall>pos xs. mset (mt pos xs) = mset xs)"

text \<open>The keys of \<^verbatim>\<open>forbidden_neighbors\<close>: the distinct labels of the grid.\<close>

definition all_digits :: "GridShuffler \<Rightarrow> string list" where
  "all_digits E = map fst (forbidden_neighbors E)"

definition init_domains :: "GridShuffler \<Rightarrow> Shuffler \<Rightarrow> Domains" where
  "init_domains E mt =
     fold (\<lambda>pos pd. AList.update pos (mt pos (all_digits E)) pd) (non_empty_positions E) []"

text \<open>\<^verbatim>\<open>shuffled_grid[i][j] = digit\<close> for every entry of the assignment.\<close>

definition set_cell :: "Grid \<Rightarrow> Position \<Rightarrow> string \<Rightarrow> Grid" where
  "set_cell g p d = g[nat (fst p) := (g ! nat (fst p))[nat (snd p) := d]]"

definition write_back :: "Grid \<Rightarrow> Assignment \<Rightarrow> Grid" where
  "write_back g asg = fold (\<lambda>(pos, digit) g'. set_cell g' pos digit) asg g"

text \<open>
  \<^verbatim>\<open>shuffle\<close> runs the search from the empty map and returns its boolean together with
  the engine after the call.  Only the success branch writes to \<^verbatim>\<open>shuffled_grid\<close>.  The
  search is called through the by-value function; by \<open>backtrack_in_place_by_value\<close> that
  is what the in-place search returns.
\<close>

definition shuffle :: "GridShuffler \<Rightarrow> Shuffler \<Rightarrow> bool \<times> GridShuffler" where
  "shuffle E mt =
     (case backtrack E (init_domains E mt) [] of
        Some current_assignment \<Rightarrow>
          (True, E\<lparr>shuffled_grid := write_back (shuffled_grid E) current_assignment\<rparr>)
      | None \<Rightarrow> (False, E))"

definition getShuffledGrid :: "GridShuffler \<Rightarrow> Grid" where
  "getShuffledGrid E = shuffled_grid E"

text \<open>
  \<^verbatim>\<open>validateResult\<close>.  Both maps are read with \<^verbatim>\<open>at()\<close>, which throws on a missing key;
  \<^verbatim>\<open>forbidden_neighbors.at(digit)\<close> is evaluated once per neighbour, so a position
  without neighbours never evaluates it.  \<open>Inr True\<close> of \<open>neighbor_conflict\<close> is the
  inner \<^verbatim>\<open>return false\<close>.
\<close>

fun neighbor_conflict :: "GridShuffler \<Rightarrow> string \<Rightarrow> Position list \<Rightarrow> fault + bool" where
  "neighbor_conflict E digit [] = Inr False"
| "neighbor_conflict E digit (n # ns) =
     (case map_of (forbidden_neighbors E) digit of
        None \<Rightarrow> Inl OutOfRange
      | Some forbidden \<Rightarrow>
          if cell (shuffled_grid E) n \<in> forbidden then Inr True
          else neighbor_conflict E digit ns)"

fun validate_positions :: "GridShuffler \<Rightarrow> Position list \<Rightarrow> fault + bool" where
  "validate_positions E [] = Inr True"
| "validate_positions E (pos # ps) =
     (let digit = cell (shuffled_grid E) pos in
      case map_of (neighbors_map E) pos of
        None \<Rightarrow> Inl OutOfRange
      | Some ns \<Rightarrow>
          (case neighbor_conflict E digit ns of
             Inl e \<Rightarrow> Inl e
           | Inr True \<Rightarrow> Inr False
           | Inr False \<Rightarrow>
               (case map_of (original_positions E) digit of
                  Some p \<Rightarrow>
                    if cell (shuffled_grid E) p = digit then Inr False
                    else validate_positions E ps
                | None \<Rightarrow> validate_positions E ps)))"

definition validateResult :: "GridShuffler \<Rightarrow> fault + bool" where
  "validateResult E = validate_positions E (non_empty_positions E)"

subsection \<open>Vocabulary of the properties\<close>

text \<open>The column count the constructor takes from the first row.\<close>

definition grid_cols :: "Grid \<Rightarrow> nat" where
  "grid_cols g = (if 0 < length g then length (g ! 0) else 0)"

text \<open>The labels of the non-empty cells that the engine reads, in row-major order.\<close>

definition labels :: "Grid \<Rightarrow> string list" where
  "labels g = filter (\<lambda>s. s \<noteq> []) (map (cell g) (cells (length g) (grid_cols g)))"

text \<open>The engine that the constructor returns, for the concrete grids of the examples.\<close>

definition engine :: "Grid \<Rightarrow> GridShuffler" where
  "engine g = projr (construct g)"

text \<open>
  The engine states a caller can reach: the constructed engine, and the engine after
  any call of \<^verbatim>\<open>shuffle\<close>.
\<close>

inductive reachable :: "Grid \<Rightarrow> GridShuffler \<Rightarrow> bool" where
  constructed: "construct g = Inr E \<Longrightarrow> reachable g E"
| shuffled: "reachable g E \<Longrightarrow> is_shuffler mt \<Longrightarrow> reachable g (snd (shuffle E mt))"

text \<open>Two positions are orthogonally adjacent when they differ by one step in one coordinate.\<close>

definition adjacent :: "Position \<Rightarrow> Position \<Rightarrow> bool" where
  "adjacent p q = (\<bar>fst p - fst q\<bar> + \<bar>snd p - snd q\<bar> = 1)"

text \<open>\<^verbatim>\<open>ForbiddenPairs[label]\<close>: the set stored for a label, empty for a label that is no key.\<close>

definition forbidden_of :: "GridShuffler \<Rightarrow> string \<Rightarrow> string set" where
  "forbidden_of E d = lookup_default (forbidden_neighbors E) d {}"

text \<open>Row-major order on positions.\<close>

definition row_major_le :: "Position \<Rightarrow> Position \<Rightarrow> bool" where
  "row_major_le p q = (fst p < fst q \<or> (fst p = fst q \<and> snd p \<le> snd q))"

text \<open>Some non-empty cell has a non-empty orthogonal neighbour.\<close>

definition has_adjacent_pair :: "GridShuffler \<Rightarrow> bool" where
  "has_adjacent_pair E =
     list_ex (\<lambda>p. grid_neighbors (original_grid E) (rows E) (cols E) p \<noteq> [])
       (non_empty_positions E)"

text \<open>
  The invariant of the search: the keys are distinct non-empty positions, every value
  is a label of the grid and not the original label of its position, and no assigned
  neighbour of a position holds a label from the forbidden set of the position's
  label.
\<close>

definition consistent :: "GridShuffler \<Rightarrow> Assignment \<Rightarrow> bool" where
  "consistent E asg \<longleftrightarrow>
     distinct (map fst asg) \<and>
     (\<forall>p d. map_of asg p = Some d \<longrightarrow>
        p \<in> set (non_empty_positions E) \<and> d \<in> set (all_digits E) \<and>
        map_of (original_positions E) d \<noteq> Some p \<and>
        (\<forall>q e. adjacent p q \<longrightarrow> map_of asg q = Some e \<longrightarrow> e \<notin> forbidden_of E d))"

section \<open>Properties\<close>

subsection \<open>Construction\<close>

lemma set_cells: "set (cells r c) = {(int i, int j) | i j. i < r \<and> j < c}"
  unfolding cells_def by auto

lemma cells_iff:
  "p \<in> set (cells r c) \<longleftrightarrow> 0 \<le> fst p \<and> fst p < int r \<and> 0 \<le> snd p \<and> snd p < int c"
proof
  assume "p \<in> set (cells r c)"
  then show "0 \<le> fst p \<and> fst p < int r \<and> 0 \<le> snd p \<and> snd p < int c"
    by (auto simp: set_cells)
next
  assume a: "0 \<le> fst p \<and> fst p < int r \<and> 0 \<le> snd p \<and> snd p < int c"
  then have "p = (int (nat (fst p)), int (nat (snd p)))" "nat (fst p) < r" "nat (snd p) < c"
    by auto
  then show "p \<in> set (cells r c)"
    unfolding set_cells by blast
qed

lemma construct_fields:
  assumes "construct g = Inr E"
  shows "original_grid E = g"
    and "rows E = length g"
    and "cols E = grid_cols g"
    and "shuffled_grid E = replicate (length g) (replicate (grid_cols g) [])"
    and "non_empty_positions E = filter (\<lambda>p. cell g p \<noteq> []) (cells (length g) (grid_cols g))"
    and "forbidden_neighbors E =
           fold (forbidden_step g (length g) (grid_cols g)) (cells (length g) (grid_cols g)) []"
    and "neighbors_map E =
           fold (\<lambda>pos m. AList.update pos (grid_neighbors g (length g) (grid_cols g) pos) m)
             (filter (\<lambda>p. cell g p \<noteq> []) (cells (length g) (grid_cols g))) []"
    and "original_positions E = fold (original_step g) (cells (length g) (grid_cols g)) []"
    and "\<forall>row \<in> set g. grid_cols g \<le> length row"
  using assms
  unfolding construct_def grid_cols_def buildForbiddenNeighbors_def buildNonEmptyPositions_def
    buildNeighborsMap_def buildOriginalPositions_def Let_def list_ex_iff
  by (auto split: if_splits)

text \<open>
  Claim C7 says that a grid whose rows do not all have the same length is refused with
  a construction error.  The constructor has no such check.  The grid with rows
  \<open>[A]\<close> and \<open>[B, C]\<close> is built into an engine of one column; the cell \<open>C\<close> is ignored.
\<close>

theorem ragged_grid_is_accepted:
  "construct [[''A''], [''B'', ''C'']] =
     Inr \<lparr>original_grid = [[''A''], [''B'', ''C'']],
          shuffled_grid = [[[]], [[]]],
          non_empty_positions = [(0, 0), (1, 0)],
          forbidden_neighbors = [(''A'', {''B''}), (''B'', {''A''})],
          neighbors_map = [((0, 0), [(1, 0)]), ((1, 0), [(0, 0)])],
          assignment = [],
          original_positions = [(''A'', (0, 0)), (''B'', (1, 0))],
          rows = 2, cols = 1\<rparr>"
  by code_simp

text \<open>
  Claim C7, amended: construction checks no row length.  Whenever no row is shorter
  than the first row, which includes grids whose rows are longer than the first and
  so of unequal length, the constructor returns an engine over the first
  \<open>grid_cols grid\<close> columns: its row count is the number of rows, its column count the
  length of the first row, and its non-empty positions are the non-empty cells of
  those columns.
\<close>

theorem construct_checks_no_row_lengths:
  assumes "\<forall>row \<in> set grid. grid_cols grid \<le> length row"
  shows "\<exists>E. construct grid = Inr E \<and> original_grid E = grid \<and>
           rows E = length grid \<and> cols E = grid_cols grid \<and>
           non_empty_positions E =
             filter (\<lambda>p. cell grid p \<noteq> []) (cells (length grid) (grid_cols grid))"
proof -
  have "\<not> list_ex (\<lambda>row. length row < grid_cols grid) grid"
    using assms by (auto simp: list_ex_iff)
  then obtain E where "construct grid = Inr E"
    by (auto simp: construct_def grid_cols_def Let_def)
  then show ?thesis
    using construct_fields [of grid E] by simp
qed

theorem construct_checks_no_row_lengths_witness:
  "\<exists>E. construct [[''A''], [''B'', ''C'']] = Inr E \<and>
       original_grid E = [[''A''], [''B'', ''C'']] \<and> rows E = 2 \<and> cols E = 1 \<and>
       non_empty_positions E = [(0, 0), (1, 0)]"
proof -
  let ?G = "[[''A''], [''B'', ''C'']]"
  have h: "\<forall>row \<in> set ?G. grid_cols ?G \<le> length row"
    by (simp add: grid_cols_def)
  have n: "filter (\<lambda>p. cell ?G p \<noteq> []) (cells 2 1) = [(0, 0), (1, 0)]"
    by code_simp
  have r: "length ?G = 2" "grid_cols ?G = 1"
    by (simp_all add: grid_cols_def)
  from construct_checks_no_row_lengths [OF h] show ?thesis
    unfolding r n .
qed

subsection \<open>Failure of the search\<close>

text \<open>
  Claim C6: when \<^verbatim>\<open>shuffle\<close> returns false, the stored output grid is the one from before
  the call (the whole engine is), for every engine state and every random outcome.
\<close>

theorem shuffle_failure_keeps_grid:
  "\<not> fst (shuffle E mt) \<Longrightarrow>
     snd (shuffle E mt) = E \<and> getShuffledGrid (snd (shuffle E mt)) = getShuffledGrid E"
  by (simp add: shuffle_def split: option.splits)

theorem shuffle_failure_keeps_grid_witness:
  "\<not> fst (shuffle (engine [[''A'', ''B'']]) (\<lambda>pos xs. xs)) \<and>
   getShuffledGrid (snd (shuffle (engine [[''A'', ''B'']]) (\<lambda>pos xs. xs))) = [[[], []]]"
proof -
  have f: "\<not> fst (shuffle (engine [[''A'', ''B'']]) (\<lambda>pos xs. xs))"
    by code_simp
  have g: "getShuffledGrid (engine [[''A'', ''B'']]) = [[[], []]]"
    by code_simp
  show ?thesis
    using f g shuffle_failure_keeps_grid [OF f] by simp
qed

lemma perm_of_two:
  assumes "mset xs = mset [a, b]"
  shows "xs = [a, b] \<or> xs = [b, a]"
proof -
  from assms have "length xs = 2"
    by (metis length_Cons list.size(3) mset_eq_length numeral_2_eq_2)
  then obtain x y where xs: "xs = [x, y]"
    by (metis (no_types, opaque_lifting) One_nat_def Suc_1 length_0_conv length_Suc_conv)
  with assms show ?thesis
    by (auto simp: add_eq_conv_ex)
qed

text \<open>
  Claim C5: on the \<open>1 \<times> 2\<close> grid \<open>[[A, B]]\<close> the constructor succeeds and \<^verbatim>\<open>shuffle\<close>
  returns false, whatever order the random source gives to the candidate lists.
\<close>

theorem two_cell_grid_infeasible:
  assumes "is_shuffler mt"
  shows "\<exists>E. construct [[''A'', ''B'']] = Inr E \<and> fst (shuffle E mt) = False"
proof -
  define E where "E = \<lparr>original_grid = [[''A'', ''B'']], shuffled_grid = [[[], []]],
        non_empty_positions = [(0, 0), (0, 1)],
        forbidden_neighbors = [(''A'', {''B''}), (''B'', {''A''})],
        neighbors_map = [((0, 0), [(0, 1)]), ((0, 1), [(0, 0)])],
        assignment = [],
        original_positions = [(''A'', (0, 0)), (''B'', (0, 1))], rows = 1,
        cols = 2\<rparr>"
  have c: "construct [[''A'', ''B'']] = Inr E"
    unfolding E_def by code_simp
  have d: "init_domains E mt =
      [((0, 0), mt (0, 0) [''A'', ''B'']), ((0, 1), mt (0, 1) [''A'', ''B''])]"
    by (simp add: init_domains_def all_digits_def E_def)
  have p0: "mt (0, 0) [''A'', ''B''] = [''A'', ''B''] \<or> mt (0, 0) [''A'', ''B''] = [''B'', ''A'']"
    and p1: "mt (0, 1) [''A'', ''B''] = [''A'', ''B''] \<or> mt (0, 1) [''A'', ''B''] = [''B'', ''A'']"
    using assms by (auto simp: is_shuffler_def intro!: perm_of_two)
  have b1: "backtrack E [((0, 0), [''A'', ''B'']), ((0, 1), [''A'', ''B''])] [] = None"
    and b2: "backtrack E [((0, 0), [''A'', ''B'']), ((0, 1), [''B'', ''A''])] [] = None"
    and b3: "backtrack E [((0, 0), [''B'', ''A'']), ((0, 1), [''A'', ''B''])] [] = None"
    and b4: "backtrack E [((0, 0), [''B'', ''A'']), ((0, 1), [''B'', ''A''])] [] = None"
    unfolding E_def by code_simp+
  have "backtrack E (init_domains E mt) [] = None"
    using p0 p1 b1 b2 b3 b4 unfolding d by auto
  then have "fst (shuffle E mt) = False"
    by (simp add: shuffle_def)
  with c show ?thesis by blast
qed

theorem two_cell_grid_infeasible_witness:
  "\<exists>E. construct [[''A'', ''B'']] = Inr E \<and> fst (shuffle E (\<lambda>pos xs. rev xs)) = False"
  using two_cell_grid_infeasible [of "\<lambda>pos xs. rev xs"] by (simp add: is_shuffler_def)

subsection \<open>Labels can repeat in the output\<close>

text \<open>
  Claim C1 (the output is a permutation of the input labels) does not hold of the
  code.  On the grid of the repository's tests, with every candidate list in the
  order \<open>1, \<dots>, 9\<close>, the search succeeds and the output holds the label \<open>2\<close> eight
  times: \<^verbatim>\<open>isValidAssignment\<close> never asks whether a label is already placed.  The test
  \<^verbatim>\<open>AssertNoDuplicates\<close> asserts the opposite.
\<close>

theorem test_grid_shuffle_repeats_labels:
  "construct [[''1'', ''2'', ''3''], [''4'', ''5'', ''6''], [''7'', ''8'', ''9'']] =
     Inr (engine [[''1'', ''2'', ''3''], [''4'', ''5'', ''6''], [''7'', ''8'', ''9'']]) \<and>
   shuffle (engine [[''1'', ''2'', ''3''], [''4'', ''5'', ''6''], [''7'', ''8'', ''9'']])
       (\<lambda>pos xs. xs) =
     (True, (engine [[''1'', ''2'', ''3''], [''4'', ''5'', ''6''], [''7'', ''8'', ''9'']])
        \<lparr>shuffled_grid := [[''2'', ''4'', ''2''], [''2'', ''2'', ''2''], [''2'', ''2'', ''2'']]\<rparr>)"
  by code_simp


subsection \<open>Maps built by the constructor\<close>

lemma map_of_fold_update:
  "map_of (fold (\<lambda>p m. AList.update p (h p) m) ps init) k =
     (if k \<in> set ps then Some (h k) else map_of init k)"
  by (induction ps arbitrary: init) (auto simp: update_conv')

lemma keyed_fold_other:
  "k \<notin> cell g ` set ps \<Longrightarrow>
   map_of (fold (\<lambda>p m. if cell g p = [] then m else AList.update (cell g p) (val p) m) ps init) k
     = map_of init k"
  by (induction ps arbitrary: init) (auto simp: update_conv')

lemma keyed_fold_empty_key:
  "map_of (fold (\<lambda>p m. if cell g p = [] then m else AList.update (cell g p) (val p) m) ps init) []
     = map_of init []"
  by (induction ps arbitrary: init) (auto simp: update_conv')

lemma keyed_fold_None:
  "map_of (fold (\<lambda>p m. if cell g p = [] then m else AList.update (cell g p) (val p) m) ps init) k = None
     \<longleftrightarrow> map_of init k = None \<and> (k = [] \<or> k \<notin> cell g ` set ps)"
proof (induction ps arbitrary: init)
  case Nil
  then show ?case by simp
next
  case (Cons x xs)
  show ?case
    unfolding fold_simps Cons.IH by (auto simp: update_conv')
qed

lemma keyed_fold_Some:
  "map_of (fold (\<lambda>p m. if cell g p = [] then m else AList.update (cell g p) (val p) m) ps init) k = Some v
     \<Longrightarrow> map_of init k = Some v \<or> (\<exists>p \<in> set ps. cell g p = k \<and> k \<noteq> [] \<and> v = val p)"
proof (induction ps arbitrary: init)
  case Nil
  then show ?case by simp
next
  case (Cons x xs)
  from Cons.IH [OF Cons.prems [unfolded fold_simps]] show ?case
    by (auto simp: update_conv' split: if_splits)
qed

lemma keyed_fold_unique:
  assumes "p \<in> set ps" "cell g p \<noteq> []" "\<forall>q \<in> set ps. cell g q = cell g p \<longrightarrow> q = p"
  shows "map_of (fold (\<lambda>p m. if cell g p = [] then m else AList.update (cell g p) (val p) m) ps init)
           (cell g p) = Some (val p)"
  using assms
proof (induction ps arbitrary: init)
  case Nil
  then show ?case by simp
next
  case (Cons x xs)
  show ?case
  proof (cases "p \<in> set xs")
    case True
    with Cons show ?thesis by simp
  next
    case False
    with Cons.prems have x: "x = p" and "cell g p \<notin> cell g ` set xs"
      by auto
    then show ?thesis
      using Cons.prems(2) by (simp add: keyed_fold_other update_conv')
  qed
qed

lemma forbidden_step_keyed:
  "forbidden_step g r c =
     (\<lambda>p m. if cell g p = [] then m
            else AList.update (cell g p) (set (map (cell g) (grid_neighbors g r c p))) m)"
  by (rule ext)+ (simp add: forbidden_step_def Let_def)

lemma original_step_keyed:
  "original_step g = (\<lambda>p m. if cell g p = [] then m else AList.update (cell g p) p m)"
  by (rule ext)+ (simp add: original_step_def Let_def)

subsection \<open>The shape of the output grid\<close>

lemma set_cell_length [simp]: "length (set_cell g p d) = length g"
  by (simp add: set_cell_def)

lemma set_cell_rows:
  assumes "\<forall>row \<in> set g. length row = c"
  shows "\<forall>row \<in> set (set_cell g p d). length row = c"
proof (cases "nat (fst p) < length g")
  case True
  then have "length ((g ! nat (fst p))[nat (snd p) := d]) = c"
    using assms by simp
  then show ?thesis
    using assms set_update_subset_insert [of g "nat (fst p)"]
    unfolding set_cell_def by blast
next
  case False
  then have "set_cell g p d = g"
    by (simp add: set_cell_def list_update_beyond)
  then show ?thesis using assms by simp
qed

lemma write_back_shape:
  "length g = r \<Longrightarrow> \<forall>row \<in> set g. length row = c \<Longrightarrow>
   length (write_back g asg) = r \<and> (\<forall>row \<in> set (write_back g asg). length row = c)"
  unfolding write_back_def
proof (induction asg arbitrary: g)
  case Nil
  then show ?case by simp
next
  case (Cons a asg)
  obtain pos digit where a: "a = (pos, digit)" by (cases a)
  show ?case
    using Cons.IH [of "set_cell g pos digit"] Cons.prems set_cell_rows [of g c pos digit]
    by (simp add: a)
qed

lemma reachable_inv:
  assumes "reachable g E"
  shows "\<exists>E0. construct g = Inr E0 \<and> E = E0\<lparr>shuffled_grid := shuffled_grid E\<rparr> \<and>
           length (shuffled_grid E) = length g \<and>
           (\<forall>row \<in> set (shuffled_grid E). length row = grid_cols g)"
  using assms
proof (induction rule: reachable.induct)
  case (constructed g E)
  then show ?case
    using construct_fields(4) [OF constructed] by (intro exI [of _ E]) simp
next
  case (shuffled g E mt)
  then obtain E0 where E0: "construct g = Inr E0" "E = E0\<lparr>shuffled_grid := shuffled_grid E\<rparr>"
    and sh: "length (shuffled_grid E) = length g" "\<forall>row \<in> set (shuffled_grid E). length row = grid_cols g"
    by blast
  show ?case
  proof (cases "backtrack E (init_domains E mt) []")
    case None
    then have "snd (shuffle E mt) = E" by (simp add: shuffle_def)
    then show ?thesis using E0 sh by auto
  next
    case (Some asg)
    then have s: "snd (shuffle E mt) = E\<lparr>shuffled_grid := write_back (shuffled_grid E) asg\<rparr>"
      by (simp add: shuffle_def)
    have "snd (shuffle E mt) = E0\<lparr>shuffled_grid := shuffled_grid (snd (shuffle E mt))\<rparr>"
      unfolding s by (subst E0(2)) simp
    then show ?thesis
      using E0(1) write_back_shape [OF sh, of asg] unfolding s by auto
  qed
qed

subsection \<open>The indices of a reachable engine\<close>

lemma reachable_fields:
  assumes "reachable g E"
  shows "original_grid E = g"
    and "rows E = length g"
    and "cols E = grid_cols g"
    and "non_empty_positions E = filter (\<lambda>p. cell g p \<noteq> []) (cells (length g) (grid_cols g))"
    and "forbidden_neighbors E =
           fold (forbidden_step g (length g) (grid_cols g)) (cells (length g) (grid_cols g)) []"
    and "neighbors_map E =
           fold (\<lambda>pos m. AList.update pos (grid_neighbors g (length g) (grid_cols g) pos) m)
             (filter (\<lambda>p. cell g p \<noteq> []) (cells (length g) (grid_cols g))) []"
    and "original_positions E = fold (original_step g) (cells (length g) (grid_cols g)) []"
    and "\<forall>row \<in> set g. grid_cols g \<le> length row"
    and "length (shuffled_grid E) = length g"
    and "\<forall>row \<in> set (shuffled_grid E). length row = grid_cols g"
proof -
  from reachable_inv [OF assms] obtain E0 where c: "construct g = Inr E0"
    and E: "E = E0\<lparr>shuffled_grid := shuffled_grid E\<rparr>"
    and sh: "length (shuffled_grid E) = length g"
      "\<forall>row \<in> set (shuffled_grid E). length row = grid_cols g"
    by blast
  have same: "original_grid E = original_grid E0" "rows E = rows E0" "cols E = cols E0"
    "non_empty_positions E = non_empty_positions E0"
    "forbidden_neighbors E = forbidden_neighbors E0"
    "neighbors_map E = neighbors_map E0"
    "original_positions E = original_positions E0"
    by (subst E, simp)+
  note f = construct_fields [OF c]
  show "original_grid E = g" using same f(1) by simp
  show "rows E = length g" using same f(2) by simp
  show "cols E = grid_cols g" using same f(3) by simp
  show "non_empty_positions E = filter (\<lambda>p. cell g p \<noteq> []) (cells (length g) (grid_cols g))"
    using same f(5) by simp
  show "forbidden_neighbors E =
           fold (forbidden_step g (length g) (grid_cols g)) (cells (length g) (grid_cols g)) []"
    using same f(6) by simp
  show "neighbors_map E =
           fold (\<lambda>pos m. AList.update pos (grid_neighbors g (length g) (grid_cols g) pos) m)
             (filter (\<lambda>p. cell g p \<noteq> []) (cells (length g) (grid_cols g))) []"
    using same f(7) by simp
  show "original_positions E = fold (original_step g) (cells (length g) (grid_cols g)) []"
    using same f(8) by simp
  show "\<forall>row \<in> set g. grid_cols g \<le> length row" by (rule f(9))
  show "length (shuffled_grid E) = length g" by (rule sh(1))
  show "\<forall>row \<in> set (shuffled_grid E). length row = grid_cols g" by (rule sh(2))
qed

lemma non_empty_iff:
  assumes "reachable g E"
  shows "p \<in> set (non_empty_positions E) \<longleftrightarrow>
           p \<in> set (cells (length g) (grid_cols g)) \<and> cell g p \<noteq> []"
  by (simp add: reachable_fields(4) [OF assms])

lemma adjacent_directions:
  "adjacent p q \<longleftrightarrow> q \<in> set (map (\<lambda>d. (fst p + fst d, snd p + snd d)) directions)"
  by (cases p; cases q) (auto simp: adjacent_def directions_def)

lemma adjacent_sym: "adjacent p q = adjacent q p"
  by (simp add: adjacent_def abs_minus_commute)

lemma grid_neighbors_iff:
  "q \<in> set (grid_neighbors g r c p) \<longleftrightarrow> q \<in> set (cells r c) \<and> cell g q \<noteq> [] \<and> adjacent p q"
  unfolding grid_neighbors_def adjacent_directions cells_iff by auto

lemma neighbors_iff:
  assumes "reachable g E"
  shows "q \<in> set (grid_neighbors g (length g) (grid_cols g) p) \<longleftrightarrow>
           q \<in> set (non_empty_positions E) \<and> adjacent p q"
  by (auto simp: grid_neighbors_iff non_empty_iff [OF assms])

lemma neighbors_map_lookup:
  assumes "reachable g E"
  shows "map_of (neighbors_map E) p =
           (if p \<in> set (non_empty_positions E)
            then Some (grid_neighbors g (length g) (grid_cols g) p) else None)"
  unfolding reachable_fields(6) [OF assms] reachable_fields(4) [OF assms]
  by (simp add: map_of_fold_update)

lemma labels_map:
  assumes "reachable g E"
  shows "labels g = map (cell g) (non_empty_positions E)"
  by (simp add: labels_def reachable_fields(4) [OF assms] filter_map comp_def)

lemma forbidden_keys:
  assumes "reachable g E"
  shows "map_of (forbidden_neighbors E) k = None \<longleftrightarrow> k \<notin> set (labels g)"
  unfolding reachable_fields(5) [OF assms] forbidden_step_keyed keyed_fold_None
  by (auto simp: labels_def)

lemma all_digits_labels:
  assumes "reachable g E"
  shows "set (all_digits E) = set (labels g)"
proof -
  have "k \<in> set (all_digits E) \<longleftrightarrow> map_of (forbidden_neighbors E) k \<noteq> None" for k
    by (simp add: all_digits_def map_of_eq_None_iff)
  then show ?thesis
    using forbidden_keys [OF assms] by blast
qed

lemma labels_inj:
  assumes "reachable g E" "distinct (labels g)"
    and "p \<in> set (non_empty_positions E)" "q \<in> set (non_empty_positions E)"
    and "cell g p = cell g q"
  shows "p = q"
proof -
  have "inj_on (cell g) (set (non_empty_positions E))"
    using assms(2) unfolding labels_map [OF assms(1)] by (simp add: distinct_map)
  then show ?thesis using assms(3-5) by (auto dest: inj_onD)
qed

lemma label_unique_in_cells:
  assumes "reachable g E" "distinct (labels g)" "p \<in> set (non_empty_positions E)"
  shows "\<forall>q \<in> set (cells (length g) (grid_cols g)). cell g q = cell g p \<longrightarrow> q = p"
proof (intro ballI impI)
  fix q assume q: "q \<in> set (cells (length g) (grid_cols g))" "cell g q = cell g p"
  have "cell g p \<noteq> []" using assms(3) non_empty_iff [OF assms(1)] by simp
  with q have "q \<in> set (non_empty_positions E)"
    using non_empty_iff [OF assms(1)] by simp
  with q(2) show "q = p"
    using labels_inj [OF assms(1,2) _ assms(3)] by simp
qed

lemma forbidden_lookup:
  assumes "reachable g E" "distinct (labels g)" "p \<in> set (non_empty_positions E)"
  shows "map_of (forbidden_neighbors E) (cell g p) =
           Some (cell g ` set (grid_neighbors g (length g) (grid_cols g) p))"
proof -
  have p: "p \<in> set (cells (length g) (grid_cols g))" "cell g p \<noteq> []"
    using assms(3) non_empty_iff [OF assms(1)] by simp_all
  show ?thesis
    unfolding reachable_fields(5) [OF assms(1)] forbidden_step_keyed
    using keyed_fold_unique [OF p label_unique_in_cells [OF assms],
        where val = "\<lambda>p. set (map (cell g) (grid_neighbors g (length g) (grid_cols g) p))"
          and init = "[]"]
    by simp
qed

lemma original_lookup:
  assumes "reachable g E" "distinct (labels g)" "p \<in> set (non_empty_positions E)"
  shows "map_of (original_positions E) (cell g p) = Some p"
proof -
  have p: "p \<in> set (cells (length g) (grid_cols g))" "cell g p \<noteq> []"
    using assms(3) non_empty_iff [OF assms(1)] by simp_all
  show ?thesis
    unfolding reachable_fields(7) [OF assms(1)] original_step_keyed
    using keyed_fold_unique [OF p label_unique_in_cells [OF assms],
        where val = "\<lambda>p. p" and init = "[]"]
    by simp
qed

lemma original_range:
  assumes "reachable g E" "map_of (original_positions E) k = Some p"
  shows "p \<in> set (non_empty_positions E) \<and> cell g p = k"
  using keyed_fold_Some [OF assms(2) [unfolded reachable_fields(7) [OF assms(1)] original_step_keyed]]
  by (auto simp: non_empty_iff [OF assms(1)])

lemma forbidden_of_label:
  assumes "reachable g E" "distinct (labels g)"
    and "p \<in> set (non_empty_positions E)" "q \<in> set (non_empty_positions E)"
  shows "cell g q \<in> forbidden_of E (cell g p) \<longleftrightarrow> adjacent p q"
proof -
  have "cell g q \<in> forbidden_of E (cell g p) \<longleftrightarrow>
        cell g q \<in> cell g ` set (grid_neighbors g (length g) (grid_cols g) p)"
    by (simp add: forbidden_of_def lookup_default_def forbidden_lookup [OF assms(1-3)])
  also have "\<dots> \<longleftrightarrow> q \<in> set (grid_neighbors g (length g) (grid_cols g) p)"
  proof
    assume "cell g q \<in> cell g ` set (grid_neighbors g (length g) (grid_cols g) p)"
    then obtain q' where q': "q' \<in> set (grid_neighbors g (length g) (grid_cols g) p)"
      "cell g q' = cell g q" by auto
    then have "q' \<in> set (non_empty_positions E)"
      using neighbors_iff [OF assms(1)] by simp
    then have "q' = q"
      using labels_inj [OF assms(1,2) _ assms(4) q'(2)] by simp
    with q'(1) show "q \<in> set (grid_neighbors g (length g) (grid_cols g) p)" by simp
  qed simp
  also have "\<dots> \<longleftrightarrow> adjacent p q"
    using neighbors_iff [OF assms(1)] assms(4) by simp
  finally show ?thesis .
qed

lemma forbidden_of_sym:
  assumes "reachable g E" "distinct (labels g)"
    and "d \<in> set (labels g)" "e \<in> set (labels g)"
  shows "e \<in> forbidden_of E d \<longleftrightarrow> d \<in> forbidden_of E e"
proof -
  from assms(3,4) obtain p q where
    p: "p \<in> set (non_empty_positions E)" "d = cell g p" and
    q: "q \<in> set (non_empty_positions E)" "e = cell g q"
    unfolding labels_map [OF assms(1)] by auto
  show ?thesis
    unfolding p(2) q(2)
    using forbidden_of_label [OF assms(1,2) p(1) q(1)] forbidden_of_label [OF assms(1,2) q(1) p(1)]
      adjacent_sym [of p q] by simp
qed

subsection \<open>The invariant of the search\<close>

lemma consistent_empty: "consistent E []"
  by (simp add: consistent_def)

lemma not_adjacent_self: "\<not> adjacent p p"
  by (simp add: adjacent_def)

lemma isValidAssignment_iff:
  assumes "reachable g E" "pos \<in> set (non_empty_positions E)"
  shows "isValidAssignment E pos digit asg \<longleftrightarrow>
           (\<forall>q e. q \<in> set (non_empty_positions E) \<longrightarrow> adjacent pos q \<longrightarrow>
                  map_of asg q = Some e \<longrightarrow> e \<notin> forbidden_of E digit) \<and>
           map_of (original_positions E) digit \<noteq> Some pos"
proof -
  have n: "lookup_default (neighbors_map E) pos [] = grid_neighbors g (length g) (grid_cols g) pos"
    using assms(2) by (simp add: lookup_default_def neighbors_map_lookup [OF assms(1)])
  have pt: "(case map_of asg q of None \<Rightarrow> False | Some nd \<Rightarrow> nd \<in> F) \<longleftrightarrow>
            (\<exists>e. map_of asg q = Some e \<and> e \<in> F)" for q F
    by (cases "map_of asg q") simp_all
  define A where "A \<longleftrightarrow> (\<exists>q \<in> set (grid_neighbors g (length g) (grid_cols g) pos).
               \<exists>e. map_of asg q = Some e \<and> e \<in> forbidden_of E digit)"
  have "isValidAssignment E pos digit asg \<longleftrightarrow>
          (if A then False
           else (case map_of (original_positions E) digit of Some p \<Rightarrow> p \<noteq> pos | None \<Rightarrow> True))"
    unfolding isValidAssignment_def n list_ex_iff forbidden_of_def [symmetric] pt A_def ..
  also have "\<dots> \<longleftrightarrow> \<not> A \<and> map_of (original_positions E) digit \<noteq> Some pos"
    by (cases "map_of (original_positions E) digit") auto
  finally have "isValidAssignment E pos digit asg \<longleftrightarrow>
      \<not> A \<and> map_of (original_positions E) digit \<noteq> Some pos" .
  moreover have "A \<longleftrightarrow> (\<exists>q e. q \<in> set (non_empty_positions E) \<and> adjacent pos q \<and>
      map_of asg q = Some e \<and> e \<in> forbidden_of E digit)"
    unfolding A_def using neighbors_iff [OF assms(1), of _ pos] by blast
  ultimately show ?thesis by blast
qed

lemma consistent_update:
  assumes r: "reachable g E" and dl: "distinct (labels g)"
    and c: "consistent E asg"
    and pos: "pos \<in> set (non_empty_positions E)" "map_of asg pos = None"
    and digit: "digit \<in> set (all_digits E)"
    and v: "isValidAssignment E pos digit asg"
  shows "consistent E (AList.update pos digit asg)"
proof -
  note v' = v [unfolded isValidAssignment_iff [OF r pos(1)]]
  have "distinct (map fst asg)"
    using c unfolding consistent_def by blast
  then have d: "distinct (map fst (AList.update pos digit asg))"
    by (rule distinct_update)
  have "p \<in> set (non_empty_positions E) \<and> d \<in> set (all_digits E) \<and>
        map_of (original_positions E) d \<noteq> Some p \<and>
        (\<forall>q e. adjacent p q \<longrightarrow> map_of (AList.update pos digit asg) q = Some e \<longrightarrow>
               e \<notin> forbidden_of E d)"
    if m: "map_of (AList.update pos digit asg) p = Some d" for p d
  proof (cases "p = pos")
    case True
    with m have dd: "d = digit" by (simp add: update_conv')
    have "e \<notin> forbidden_of E digit"
      if "adjacent pos q" "map_of (AList.update pos digit asg) q = Some e" for q e
    proof -
      from that(1) have "q \<noteq> pos" using not_adjacent_self [of pos] by blast
      with that(2) have q: "map_of asg q = Some e" by (simp add: update_conv')
      with c have "q \<in> set (non_empty_positions E)" unfolding consistent_def by blast
      with v' that(1) q show ?thesis by blast
    qed
    with True dd pos(1) digit v' show ?thesis by blast
  next
    case False
    with m have old: "map_of asg p = Some d" by (simp add: update_conv')
    with c have p: "p \<in> set (non_empty_positions E)" "d \<in> set (all_digits E)"
      "map_of (original_positions E) d \<noteq> Some p"
      and adj: "\<And>q e. adjacent p q \<Longrightarrow> map_of asg q = Some e \<Longrightarrow> e \<notin> forbidden_of E d"
      unfolding consistent_def by blast+
    have "e \<notin> forbidden_of E d"
      if "adjacent p q" "map_of (AList.update pos digit asg) q = Some e" for q e
    proof (cases "q = pos")
      case True
      with that(2) have e: "e = digit" by (simp add: update_conv')
      have "adjacent pos p" using that(1) True adjacent_sym by simp
      with v' p(1) old have "d \<notin> forbidden_of E digit" by blast
      then show ?thesis
        using forbidden_of_sym [OF r dl, of digit d] digit p(2)
        unfolding e all_digits_labels [OF r] by simp
    next
      case False
      with that(2) have "map_of asg q = Some e" by (simp add: update_conv')
      with adj that(1) show ?thesis by blast
    qed
    with p show ?thesis by blast
  qed
  with d show ?thesis unfolding consistent_def by blast
qed

lemma first_success_Some:
  "first_success f xs = Some r \<Longrightarrow> \<exists>x \<in> set xs. f x = Some r"
  by (induction xs) (auto split: option.splits)

lemma backtrack_consistent:
  assumes "reachable g E" "distinct (labels g)"
    and "\<forall>pos. set (lookup_default pd pos []) \<subseteq> set (all_digits E)"
    and "consistent E asg" "backtrack E pd asg = Some res"
  shows "consistent E res \<and> length res = length (non_empty_positions E)"
  using assms
proof (induction E pd asg rule: backtrack.induct)
  case (1 E pd asg)
  show ?case
  proof (cases "length asg = length (non_empty_positions E)")
    case True
    with "1.prems" show ?thesis by (simp add: backtrack.simps [of E pd asg])
  next
    case False
    with "1.prems"(5) obtain pos where sel: "select_position E pd asg = Some pos"
      by (auto simp: backtrack.simps [of E pd asg] split: option.splits)
    with False "1.prems"(5) have un: "map_of asg pos = None"
      by (auto simp: backtrack.simps [of E pd asg] split: if_splits)
    from False sel un "1.prems"(5) have
      "first_success
         (\<lambda>digit. if isValidAssignment E pos digit asg
                  then backtrack E pd (AList.update pos digit asg) else None)
         (lookup_default pd pos []) = Some res"
      by (simp add: backtrack.simps [of E pd asg])
    from first_success_Some [OF this] obtain digit where
      digit: "digit \<in> set (lookup_default pd pos [])" and
      v: "isValidAssignment E pos digit asg" and
      b: "backtrack E pd (AList.update pos digit asg) = Some res"
      by (auto split: if_splits)
    have un': "\<not> map_of asg pos \<noteq> None" using un by simp
    have c: "consistent E (AList.update pos digit asg)"
      using consistent_update [OF "1.prems"(1,2,4) select_position_mem [OF sel] un _ v]
        digit "1.prems"(3) by blast
    show ?thesis
      by (rule "1.IH" [OF False sel un' digit v "1.prems"(1,2,3) c b])
  qed
qed

lemma consistent_keys:
  assumes "consistent E res" "length res = length (non_empty_positions E)"
    and "distinct (non_empty_positions E)"
  shows "fst ` set res = set (non_empty_positions E)"
proof -
  have d: "distinct (map fst res)"
    using assms(1) unfolding consistent_def by blast
  have "p \<in> set (non_empty_positions E)" if "p \<in> fst ` set res" for p
  proof -
    from that obtain d where "map_of res p = Some d"
      by (metis map_of_eq_None_iff not_Some_eq)
    with assms(1) show ?thesis unfolding consistent_def by blast
  qed
  then have sub: "set (map fst res) \<subseteq> set (non_empty_positions E)" by auto
  have "card (set (map fst res)) = card (set (non_empty_positions E))"
    using distinct_card [OF d] distinct_card [OF assms(3)] assms(2) by simp
  with sub have "set (map fst res) = set (non_empty_positions E)"
    by (intro card_subset_eq) auto
  then show ?thesis by simp
qed

lemma init_domains_lookup:
  "lookup_default (init_domains E mt) pos [] =
     (if pos \<in> set (non_empty_positions E) then mt pos (all_digits E) else [])"
  by (simp add: lookup_default_def init_domains_def map_of_fold_update)

lemma init_domains_digits:
  assumes "is_shuffler mt"
  shows "set (lookup_default (init_domains E mt) pos []) \<subseteq> set (all_digits E)"
proof -
  have "set (mt pos (all_digits E)) = set (all_digits E)"
    using assms unfolding is_shuffler_def by (metis mset_eq_setD)
  then show ?thesis by (auto simp: init_domains_lookup)
qed

subsection \<open>Writing the assignment into the output grid\<close>

lemma set_cell_cell:
  assumes "length g = r" "\<forall>row \<in> set g. length row = c"
    and p: "p \<in> set (cells r c)" and q: "q \<in> set (cells r c)"
  shows "cell (set_cell g p d) q = (if q = p then d else cell g q)"
proof -
  from p q have b: "0 \<le> fst p" "nat (fst p) < length g" "0 \<le> snd p" "nat (snd p) < c"
    "0 \<le> fst q" "0 \<le> snd q"
    using assms(1) by (auto simp: cells_iff)
  then have len: "length (g ! nat (fst p)) = c"
    using assms(2) by simp
  have eq: "nat (fst p) = nat (fst q) \<longleftrightarrow> fst p = fst q"
    "nat (snd p) = nat (snd q) \<longleftrightarrow> snd p = snd q"
    using b by auto
  show ?thesis
  proof (cases "fst q = fst p")
    case True
    then show ?thesis
      using b len eq unfolding cell_def set_cell_def
      by (cases "snd q = snd p") (auto simp: prod_eq_iff)
  next
    case False
    then show ?thesis
      using b eq unfolding cell_def set_cell_def by (auto simp: prod_eq_iff)
  qed
qed

lemma write_back_cell:
  assumes "length g = r" "\<forall>row \<in> set g. length row = c"
    and "distinct (map fst asg)" "fst ` set asg \<subseteq> set (cells r c)" "q \<in> set (cells r c)"
  shows "cell (write_back g asg) q = (case map_of asg q of Some d \<Rightarrow> d | None \<Rightarrow> cell g q)"
  using assms
proof (induction asg arbitrary: g)
  case Nil
  then show ?case by (simp add: write_back_def)
next
  case (Cons a asg)
  obtain p d where a: "a = (p, d)" by (cases a)
  have sh: "length (set_cell g p d) = r" "\<forall>row \<in> set (set_cell g p d). length row = c"
    using Cons.prems(1,2) set_cell_rows [of g c p d] by simp_all
  have p: "p \<in> set (cells r c)" "p \<notin> fst ` set asg"
    using Cons.prems(3,4) a by auto
  have step: "write_back g (a # asg) = write_back (set_cell g p d) asg"
    by (simp add: write_back_def a)
  have ih: "cell (write_back (set_cell g p d) asg) q =
      (case map_of asg q of Some d \<Rightarrow> d | None \<Rightarrow> cell (set_cell g p d) q)"
    using Cons.IH [OF sh] Cons.prems(3,4,5) a by simp
  show ?case
  proof (cases "q = p")
    case True
    then have "map_of asg q = None" using p(2) by (simp add: map_of_eq_None_iff)
    then show ?thesis
      unfolding step ih using True set_cell_cell [OF Cons.prems(1,2) p(1) Cons.prems(5), of d]
      by (simp add: a)
  next
    case False
    then show ?thesis
      unfolding step ih using set_cell_cell [OF Cons.prems(1,2) p(1) Cons.prems(5), of d]
      by (simp add: a split: option.splits)
  qed
qed

subsection \<open>What a successful shuffle leaves in the engine\<close>

lemma shuffle_success:
  assumes r: "reachable g E" and dl: "distinct (labels g)" and mt: "is_shuffler mt"
    and ok: "fst (shuffle E mt)"
  shows "\<exists>res. consistent E res \<and> fst ` set res = set (non_empty_positions E) \<and>
           snd (shuffle E mt) = E\<lparr>shuffled_grid := write_back (shuffled_grid E) res\<rparr> \<and>
           (\<forall>p \<in> set (non_empty_positions E).
              map_of res p = Some (cell (shuffled_grid (snd (shuffle E mt))) p))"
proof -
  from ok obtain res where b: "backtrack E (init_domains E mt) [] = Some res"
    by (auto simp: shuffle_def split: option.splits)
  then have s: "snd (shuffle E mt) = E\<lparr>shuffled_grid := write_back (shuffled_grid E) res\<rparr>"
    by (simp add: shuffle_def)
  have c: "consistent E res" "length res = length (non_empty_positions E)"
    using backtrack_consistent [OF r dl _ consistent_empty b] init_domains_digits [OF mt]
    by blast+
  have dn: "distinct (non_empty_positions E)"
    using dl unfolding labels_map [OF r] by (simp add: distinct_map)
  note k = consistent_keys [OF c dn]
  have d: "distinct (map fst res)" using c(1) unfolding consistent_def by blast
  have sub: "fst ` set res \<subseteq> set (cells (length g) (grid_cols g))"
    unfolding k using non_empty_iff [OF r] by blast
  have "map_of res p = Some (cell (shuffled_grid (snd (shuffle E mt))) p)"
    if "p \<in> set (non_empty_positions E)" for p
  proof -
    from that k obtain d' where d': "map_of res p = Some d'"
      by (metis map_of_eq_None_iff not_Some_eq)
    have "p \<in> set (cells (length g) (grid_cols g))"
      using that non_empty_iff [OF r] by simp
    from write_back_cell [OF reachable_fields(9,10) [OF r] d sub this]
    show ?thesis by (simp add: s d')
  qed
  with c(1) k s show ?thesis by blast
qed


lemma shuffle_keeps_indices:
  "non_empty_positions (snd (shuffle E mt)) = non_empty_positions E"
  "forbidden_neighbors (snd (shuffle E mt)) = forbidden_neighbors E"
  "neighbors_map (snd (shuffle E mt)) = neighbors_map E"
  "original_positions (snd (shuffle E mt)) = original_positions E"
  by (simp_all add: shuffle_def split: option.splits)

lemma shuffle_output:
  assumes r: "reachable g E" and dl: "distinct (labels g)" and mt: "is_shuffler mt"
    and ok: "fst (shuffle E mt)"
    and p: "p \<in> set (non_empty_positions E)"
  shows "cell (shuffled_grid (snd (shuffle E mt))) p \<in> set (labels g)"
    and "map_of (original_positions E) (cell (shuffled_grid (snd (shuffle E mt))) p) \<noteq> Some p"
    and "q \<in> set (non_empty_positions E) \<Longrightarrow> adjacent p q \<Longrightarrow>
           cell (shuffled_grid (snd (shuffle E mt))) q
             \<notin> forbidden_of E (cell (shuffled_grid (snd (shuffle E mt))) p)"
proof -
  from shuffle_success [OF r dl mt ok] obtain res where c: "consistent E res"
    and m: "\<And>p. p \<in> set (non_empty_positions E) \<Longrightarrow>
              map_of res p = Some (cell (shuffled_grid (snd (shuffle E mt))) p)"
    by blast
  note mp = m [OF p]
  from c mp show "cell (shuffled_grid (snd (shuffle E mt))) p \<in> set (labels g)"
    unfolding consistent_def all_digits_labels [OF r] by blast
  from c mp show "map_of (original_positions E) (cell (shuffled_grid (snd (shuffle E mt))) p) \<noteq> Some p"
    unfolding consistent_def by blast
  show "cell (shuffled_grid (snd (shuffle E mt))) q
             \<notin> forbidden_of E (cell (shuffled_grid (snd (shuffle E mt))) p)"
    if "q \<in> set (non_empty_positions E)" "adjacent p q"
    using c mp m [OF that(1)] that(2) unfolding consistent_def by blast
qed

subsection \<open>Derangement\<close>

text \<open>
  Claim C2: for every input grid of the spec's data model (the labels of the non-empty
  cells are pairwise distinct), in every reachable engine state and for every outcome
  of the random source, whenever \<^verbatim>\<open>shuffle\<close> returns true the output label at each
  non-empty position differs from the input label there.
\<close>

theorem shuffle_deranges:
  assumes "reachable g E" "distinct (labels g)" "is_shuffler mt" "fst (shuffle E mt)"
    and "p \<in> set (cells (length g) (grid_cols g))" "cell g p \<noteq> []"
  shows "cell (getShuffledGrid (snd (shuffle E mt))) p \<noteq> cell g p"
proof -
  have p: "p \<in> set (non_empty_positions E)"
    using assms(5,6) non_empty_iff [OF assms(1)] by simp
  from shuffle_output(2) [OF assms(1-4) p] original_lookup [OF assms(1,2) p]
  show ?thesis unfolding getShuffledGrid_def by auto
qed

theorem shuffle_deranges_witness:
  "cell (getShuffledGrid (snd (shuffle (engine [[''A'', ''B''], [''C'', ''D'']]) (\<lambda>pos xs. xs)))) (1, 0)
     \<noteq> cell [[''A'', ''B''], [''C'', ''D'']] (1, 0)"
proof -
  let ?G = "[[''A'', ''B''], [''C'', ''D'']]"
  have c: "construct ?G = Inr (engine ?G)" by code_simp
  have dl: "distinct (labels ?G)" by code_simp
  have mt: "is_shuffler (\<lambda>pos xs. xs)" by (simp add: is_shuffler_def)
  have ok: "fst (shuffle (engine ?G) (\<lambda>pos xs. xs))" by code_simp
  have p: "(1, 0) \<in> set (cells (length ?G) (grid_cols ?G))" by code_simp
  have n: "cell ?G (1, 0) \<noteq> []" by code_simp
  show ?thesis
    by (rule shuffle_deranges [OF reachable.constructed [OF c] dl mt ok p n])
qed

subsection \<open>Adjacency\<close>

text \<open>
  Claim C3: for every input grid of the spec's data model (the labels of the non-empty
  cells are pairwise distinct), in every reachable engine state and for every outcome
  of the random source, whenever \<^verbatim>\<open>shuffle\<close> returns true, for every pair of
  orthogonally adjacent non-empty positions \<open>p\<close>, \<open>q\<close> the output label at \<open>q\<close> is not
  in the forbidden set of the output label at \<open>p\<close>.  The search checks a candidate only
  against its already assigned neighbours and in one direction; the other direction
  follows from the symmetry of the index (\<open>forbidden_of_sym\<close>).
\<close>

theorem shuffle_separates_forbidden_pairs:
  assumes "reachable g E" "distinct (labels g)" "is_shuffler mt" "fst (shuffle E mt)"
    and "p \<in> set (cells (length g) (grid_cols g))" "cell g p \<noteq> []"
    and "q \<in> set (cells (length g) (grid_cols g))" "cell g q \<noteq> []"
    and "adjacent p q"
  shows "cell (getShuffledGrid (snd (shuffle E mt))) q
           \<notin> forbidden_of (snd (shuffle E mt)) (cell (getShuffledGrid (snd (shuffle E mt))) p)"
proof -
  have p: "p \<in> set (non_empty_positions E)" and q: "q \<in> set (non_empty_positions E)"
    using assms(5-8) non_empty_iff [OF assms(1)] by simp_all
  have "forbidden_of (snd (shuffle E mt)) = forbidden_of E"
    by (rule ext) (simp add: forbidden_of_def shuffle_keeps_indices)
  with shuffle_output(3) [OF assms(1-4) p q assms(9)]
  show ?thesis unfolding getShuffledGrid_def by simp
qed

theorem shuffle_separates_forbidden_pairs_witness:
  "cell (getShuffledGrid (snd (shuffle (snd (shuffle (engine [[''A'', ''B''], [''C'', ''D'']]) (\<lambda>pos xs. xs)))
           (\<lambda>pos xs. rev xs)))) (0, 1)
     \<notin> forbidden_of (snd (shuffle (snd (shuffle (engine [[''A'', ''B''], [''C'', ''D'']]) (\<lambda>pos xs. xs)))
           (\<lambda>pos xs. rev xs)))
         (cell (getShuffledGrid (snd (shuffle (snd (shuffle (engine [[''A'', ''B''], [''C'', ''D'']])
           (\<lambda>pos xs. xs))) (\<lambda>pos xs. rev xs)))) (0, 0))"
proof -
  let ?G = "[[''A'', ''B''], [''C'', ''D'']]"
  let ?E1 = "snd (shuffle (engine ?G) (\<lambda>pos xs. xs))"
  have c: "construct ?G = Inr (engine ?G)" by code_simp
  have dl: "distinct (labels ?G)" by code_simp
  have m1: "is_shuffler (\<lambda>pos xs. xs)" by (simp add: is_shuffler_def)
  have m2: "is_shuffler (\<lambda>pos xs. rev xs)" by (simp add: is_shuffler_def)
  have r: "reachable ?G ?E1"
    by (rule reachable.shuffled [OF reachable.constructed [OF c] m1])
  have ok: "fst (shuffle ?E1 (\<lambda>pos xs. rev xs))" by code_simp
  have p: "(0, 0) \<in> set (cells (length ?G) (grid_cols ?G))" "cell ?G (0, 0) \<noteq> []"
    and q: "(0, 1) \<in> set (cells (length ?G) (grid_cols ?G))" "cell ?G (0, 1) \<noteq> []"
    and a: "adjacent (0, 0) (0, 1)"
    by code_simp+
  show ?thesis
    by (rule shuffle_separates_forbidden_pairs [OF r dl m2 ok p q a])
qed

subsection \<open>The validator\<close>

lemma neighbor_conflict_none:
  assumes "map_of (forbidden_neighbors E) digit = Some S"
    and "\<forall>n \<in> set ns. cell (shuffled_grid E) n \<notin> S"
  shows "neighbor_conflict E digit ns = Inr False"
  using assms by (induction ns) simp_all

lemma neighbor_conflict_missing:
  assumes "map_of (forbidden_neighbors E) digit = None"
  shows "neighbor_conflict E digit ns = (if ns = [] then Inr False else Inl OutOfRange)"
  using assms by (cases ns) simp_all

lemma validate_positions_true:
  assumes "\<forall>pos \<in> set ps. \<exists>ns S.
      map_of (neighbors_map E) pos = Some ns \<and>
      map_of (forbidden_neighbors E) (cell (shuffled_grid E) pos) = Some S \<and>
      (\<forall>n \<in> set ns. cell (shuffled_grid E) n \<notin> S) \<and>
      (\<forall>p0. map_of (original_positions E) (cell (shuffled_grid E) pos) = Some p0 \<longrightarrow>
            cell (shuffled_grid E) p0 \<noteq> cell (shuffled_grid E) pos)"
  shows "validate_positions E ps = Inr True"
  using assms
proof (induction ps)
  case Nil
  then show ?case by simp
next
  case (Cons pos ps)
  from Cons.prems obtain ns S where
    n: "map_of (neighbors_map E) pos = Some ns" and
    f: "map_of (forbidden_neighbors E) (cell (shuffled_grid E) pos) = Some S" and
    a: "\<forall>n \<in> set ns. cell (shuffled_grid E) n \<notin> S" and
    o: "\<forall>p0. map_of (original_positions E) (cell (shuffled_grid E) pos) = Some p0 \<longrightarrow>
            cell (shuffled_grid E) p0 \<noteq> cell (shuffled_grid E) pos"
    by auto
  have rest: "validate_positions E ps = Inr True"
    using Cons by simp
  show ?case
    using o by (auto simp: n neighbor_conflict_none [OF f a] rest Let_def split: option.splits)
qed

text \<open>
  Claim C4: for every input grid of the spec's data model (the labels of the non-empty
  cells are pairwise distinct), in every reachable engine state and for every outcome
  of the random source, whenever \<^verbatim>\<open>shuffle\<close> returns true, \<^verbatim>\<open>validateResult\<close> on the
  resulting engine returns true (and throws nothing).
\<close>

theorem validator_accepts_shuffle:
  assumes "reachable g E" "distinct (labels g)" "is_shuffler mt" "fst (shuffle E mt)"
  shows "validateResult (snd (shuffle E mt)) = Inr True"
proof -
  let ?E' = "snd (shuffle E mt)"
  let ?out = "shuffled_grid ?E'"
  have r': "reachable g ?E'"
    by (rule reachable.shuffled [OF assms(1,3)])
  note k = shuffle_keeps_indices [of E mt]
  have "\<exists>ns S.
      map_of (neighbors_map ?E') pos = Some ns \<and>
      map_of (forbidden_neighbors ?E') (cell ?out pos) = Some S \<and>
      (\<forall>n \<in> set ns. cell ?out n \<notin> S) \<and>
      (\<forall>p0. map_of (original_positions ?E') (cell ?out pos) = Some p0 \<longrightarrow>
            cell ?out p0 \<noteq> cell ?out pos)"
    if pos: "pos \<in> set (non_empty_positions ?E')" for pos
  proof -
    have pos': "pos \<in> set (non_empty_positions E)" using pos by (simp add: k)
    have n: "map_of (neighbors_map ?E') pos = Some (grid_neighbors g (length g) (grid_cols g) pos)"
      using pos by (simp add: neighbors_map_lookup [OF r'])
    from shuffle_output(1) [OF assms pos'] obtain S where
      S: "map_of (forbidden_neighbors ?E') (cell ?out pos) = Some S"
      using forbidden_keys [OF r'] by (metis not_Some_eq)
    then have fo: "forbidden_of E (cell ?out pos) = S"
      by (simp add: forbidden_of_def lookup_default_def k)
    have a: "\<forall>n \<in> set (grid_neighbors g (length g) (grid_cols g) pos). cell ?out n \<notin> S"
      using shuffle_output(3) [OF assms pos'] neighbors_iff [OF assms(1)] fo by blast
    have "cell ?out p0 \<noteq> cell ?out pos"
      if "map_of (original_positions ?E') (cell ?out pos) = Some p0" for p0
    proof -
      from that have o: "map_of (original_positions E) (cell ?out pos) = Some p0"
        by (simp add: k)
      then have "p0 \<in> set (non_empty_positions E)"
        using original_range [OF assms(1)] by blast
      from shuffle_output(2) [OF assms this] o show ?thesis by auto
    qed
    with n S a show ?thesis by blast
  qed
  then show ?thesis
    unfolding validateResult_def by (intro validate_positions_true) blast
qed

theorem validator_accepts_shuffle_witness:
  "validateResult (snd (shuffle (engine [[''1'', ''2'', ''3''], [''4'', [], ''6''], [''7'', [], []]])
      (\<lambda>pos xs. rotate1 xs))) = Inr True"
proof -
  let ?G = "[[''1'', ''2'', ''3''], [''4'', [], ''6''], [''7'', [], []]]"
  have c: "construct ?G = Inr (engine ?G)" by code_simp
  have dl: "distinct (labels ?G)" by code_simp
  have "mset (rotate1 xs) = mset xs" for xs :: "string list"
    by (cases xs) simp_all
  then have mt: "is_shuffler (\<lambda>pos xs. rotate1 xs)" by (simp add: is_shuffler_def)
  have ok: "fst (shuffle (engine ?G) (\<lambda>pos xs. rotate1 xs))" by code_simp
  show ?thesis
    by (rule validator_accepts_shuffle [OF reachable.constructed [OF c] dl mt ok])
qed

text \<open>
  Claim C10 says that \<^verbatim>\<open>validateResult\<close> on an engine that has not yet shuffled
  successfully throws for every grid with a non-empty cell.
  \<^verbatim>\<open>forbidden_neighbors.at(digit)\<close> stands inside the loop over the neighbours, so a
  position without neighbours never evaluates it: on \<open>[[A]]\<close> the validator returns true.
\<close>

theorem fresh_single_cell_validates:
  "construct [[''A'']] = Inr (engine [[''A'']]) \<and>
   getShuffledGrid (engine [[''A'']]) = [[[]]] \<and>
   validateResult (engine [[''A'']]) = Inr True"
  by code_simp

lemma fresh_cell_empty:
  assumes "construct g = Inr E" "p \<in> set (non_empty_positions E)"
  shows "cell (shuffled_grid E) p = []"
proof -
  have "p \<in> set (cells (length g) (grid_cols g))"
    using assms(2) non_empty_iff [OF reachable.constructed [OF assms(1)]] by simp
  then show ?thesis
    unfolding construct_fields(4) [OF assms(1)] cell_def by (auto simp: cells_iff)
qed

lemma validate_positions_fresh:
  assumes c: "construct g = Inr E" and "set ps \<subseteq> set (non_empty_positions E)"
  shows "validate_positions E ps =
           (if list_ex (\<lambda>p. grid_neighbors (original_grid E) (rows E) (cols E) p \<noteq> []) ps
            then Inl OutOfRange else Inr True)"
  using assms(2)
proof (induction ps)
  case Nil
  then show ?case by simp
next
  case (Cons p ps)
  note r = reachable.constructed [OF c]
  have p: "p \<in> set (non_empty_positions E)" using Cons.prems by simp
  have e: "cell (shuffled_grid E) p = []" by (rule fresh_cell_empty [OF c p])
  have f: "map_of (forbidden_neighbors E) [] = None"
    using forbidden_keys [OF r, of "[]"] by (simp add: labels_def)
  have o: "map_of (original_positions E) [] = None"
    unfolding reachable_fields(7) [OF r] original_step_keyed keyed_fold_empty_key by simp
  have n: "map_of (neighbors_map E) p = Some (grid_neighbors (original_grid E) (rows E) (cols E) p)"
    using p by (simp add: neighbors_map_lookup [OF r] reachable_fields(1-3) [OF r])
  have rest: "validate_positions E ps =
           (if list_ex (\<lambda>p. grid_neighbors (original_grid E) (rows E) (cols E) p \<noteq> []) ps
            then Inl OutOfRange else Inr True)"
    using Cons by simp
  show ?case
    by (simp add: e n o rest neighbor_conflict_missing [OF f])
qed

text \<open>
  Claim C10, amended: on the engine as constructed (its output grid all empty),
  \<^verbatim>\<open>validateResult\<close> throws \<^verbatim>\<open>std::out_of_range\<close> exactly when some non-empty cell has a
  non-empty orthogonal neighbour; when no non-empty cell has one, it returns true.
\<close>

theorem fresh_validate_faults_iff_adjacent_pair:
  assumes "construct g = Inr E"
  shows "validateResult E = (if has_adjacent_pair E then Inl OutOfRange else Inr True)"
  unfolding validateResult_def has_adjacent_pair_def
  by (rule validate_positions_fresh [OF assms]) simp

theorem fresh_validate_faults_iff_adjacent_pair_witness:
  "has_adjacent_pair (engine [[''A'', ''B'']]) \<and> validateResult (engine [[''A'', ''B'']]) = Inl OutOfRange"
proof -
  have c: "construct [[''A'', ''B'']] = Inr (engine [[''A'', ''B'']])" by code_simp
  have h: "has_adjacent_pair (engine [[''A'', ''B'']])" by code_simp
  show ?thesis
    using fresh_validate_faults_iff_adjacent_pair [OF c] h by simp
qed


subsection \<open>Termination and the selection\<close>

lemma unassigned_le: "unassigned E asg \<le> length (non_empty_positions E)"
proof -
  have "unassigned E asg \<le> card (set (non_empty_positions E))"
    unfolding unassigned_def by (intro card_mono) auto
  also have "\<dots> \<le> length (non_empty_positions E)" by (rule card_length)
  finally show ?thesis .
qed

lemma delete_update_fresh:
  "map_of asg pos = None \<Longrightarrow> AList.delete pos (AList.update pos digit asg) = asg"
  by (induction asg) (auto simp: delete_update_same split: if_splits)

lemma try_candidates_by_value:
  assumes rec: "\<And>a. unassigned E a < n \<Longrightarrow> recurse a = Some (by_value_result E pd a)"
    and pos: "pos \<in> set (non_empty_positions E)" "map_of asg pos = None"
    and n: "unassigned E asg \<le> n"
  shows "try_candidates recurse E pos ds asg =
           Some (case first_success
                        (\<lambda>digit. if isValidAssignment E pos digit asg
                                 then backtrack E pd (AList.update pos digit asg) else None) ds of
                   Some res \<Rightarrow> (True, res) | None \<Rightarrow> (False, asg))"
proof (induction ds)
  case Nil
  show ?case by simp
next
  case (Cons d ds)
  show ?case
  proof (cases "isValidAssignment E pos d asg")
    case False
    then show ?thesis using Cons.IH by simp
  next
    case True
    have "unassigned E (AList.update pos d asg) < n"
      using unassigned_update [OF pos, of d] n by simp
    then have r: "recurse (AList.update pos d asg) = Some (by_value_result E pd (AList.update pos d asg))"
      by (rule rec)
    show ?thesis
    proof (cases "backtrack E pd (AList.update pos d asg)")
      case None
      then show ?thesis
        using True r Cons.IH delete_update_fresh [OF pos(2), of d]
        by (simp add: by_value_result_def)
    next
      case (Some res)
      then show ?thesis
        using True r by (simp add: by_value_result_def)
    qed
  qed
qed

lemma backtrack_in_place_by_value:
  "unassigned E asg < n \<Longrightarrow> backtrack_in_place n E pd asg = Some (by_value_result E pd asg)"
proof (induction n arbitrary: asg)
  case 0
  then show ?case by simp
next
  case (Suc n)
  show ?case
  proof (cases "length asg = length (non_empty_positions E)")
    case True
    then show ?thesis
      by (simp add: by_value_result_def backtrack.simps [of E pd asg])
  next
    case len: False
    show ?thesis
    proof (cases "select_position E pd asg")
      case None
      with len show ?thesis
        by (simp add: by_value_result_def backtrack.simps [of E pd asg])
    next
      case (Some pos)
      show ?thesis
      proof (cases "map_of asg pos")
        case (Some d)
        with len \<open>select_position E pd asg = Some pos\<close> show ?thesis
          by (simp add: by_value_result_def backtrack.simps [of E pd asg])
      next
        case None
        have n: "unassigned E asg \<le> n" using Suc.prems by simp
        note t = try_candidates_by_value [where recurse = "backtrack_in_place n E pd" and pd = pd,
            OF Suc.IH select_position_mem [OF \<open>select_position E pd asg = Some pos\<close>] None n]
        show ?thesis
          using len \<open>select_position E pd asg = Some pos\<close> None
          by (simp add: t by_value_result_def backtrack.simps [of E pd asg])
      qed
    qed
  qed
qed

text \<open>
  Claim C8: the backtracking search terminates, from every engine state, every domain
  map and every partial assignment.  The in-place search returns within recursion
  depth \<open>|non_empty_positions| + 1\<close> (and returns what the by-value function computes),
  and the recursion of the by-value function is well-founded.  The reason is the
  claim's: each recursive call assigns a position that was unassigned, so the number of
  unassigned non-empty positions, at most the number of non-empty positions, drops;
  the candidates of one level are the elements of a list.
\<close>

theorem backtrack_terminates:
  "backtrack_in_place (Suc (length (non_empty_positions E))) E possible_digits current_assignment
     = Some (by_value_result E possible_digits current_assignment) \<and>
   backtrack_dom (E, possible_digits, current_assignment) \<and>
   (select_position E possible_digits current_assignment = Some pos \<and>
    map_of current_assignment pos = None \<longrightarrow>
      unassigned E (AList.update pos digit current_assignment) < unassigned E current_assignment \<and>
      unassigned E current_assignment \<le> length (non_empty_positions E))"
proof -
  have "unassigned E current_assignment < Suc (length (non_empty_positions E))"
    using unassigned_le [of E current_assignment] by simp
  then have "backtrack_in_place (Suc (length (non_empty_positions E))) E possible_digits
      current_assignment = Some (by_value_result E possible_digits current_assignment)"
    by (rule backtrack_in_place_by_value)
  then show ?thesis
    using backtrack_total unassigned_update [OF select_position_mem] unassigned_le by blast
qed

theorem backtrack_terminates_witness:
  "backtrack_in_place 5 (engine [[''A'', ''B''], [''C'', ''D'']])
      (init_domains (engine [[''A'', ''B''], [''C'', ''D'']]) (\<lambda>pos xs. xs)) [((0, 0), ''B'')]
     = Some (True, [((0, 0), ''B''), ((0, 1), ''C''), ((1, 0), ''B''), ((1, 1), ''B'')]) \<and>
   backtrack_dom (engine [[''A'', ''B''], [''C'', ''D'']],
      init_domains (engine [[''A'', ''B''], [''C'', ''D'']]) (\<lambda>pos xs. xs), [((0, 0), ''B'')]) \<and>
   unassigned (engine [[''A'', ''B''], [''C'', ''D'']]) (AList.update (0, 1) ''C'' [((0, 0), ''B'')])
     < unassigned (engine [[''A'', ''B''], [''C'', ''D'']]) [((0, 0), ''B'')] \<and>
   unassigned (engine [[''A'', ''B''], [''C'', ''D'']]) [((0, 0), ''B'')] \<le> 4"
proof -
  let ?E = "engine [[''A'', ''B''], [''C'', ''D'']]"
  let ?pd = "init_domains ?E (\<lambda>pos xs. xs)"
  have s: "select_position ?E ?pd [((0, 0), ''B'')] = Some (0, 1)"
    by code_simp
  have m: "map_of [((0, 0), ''B'')] ((0, 1) :: Position) = None"
    by simp
  have n: "length (non_empty_positions ?E) = 4"
    by code_simp
  have v: "by_value_result ?E ?pd [((0, 0), ''B'')] =
      (True, [((0, 0), ''B''), ((0, 1), ''C''), ((1, 0), ''B''), ((1, 1), ''B'')])"
    by code_simp
  note t = backtrack_terminates [of ?E ?pd "[((0, 0), ''B'')]" "(0, 1)" "''C''"]
  have r: "backtrack_in_place 5 ?E ?pd [((0, 0), ''B'')] =
      Some (True, [((0, 0), ''B''), ((0, 1), ''C''), ((1, 0), ''B''), ((1, 1), ''B'')])"
    using t unfolding n v by simp
  have a: "backtrack_dom (?E, ?pd, [((0, 0), ''B'')])"
    using t by blast
  have b: "unassigned ?E (AList.update (0, 1) ''C'' [((0, 0), ''B'')])
      < unassigned ?E [((0, 0), ''B'')]"
    using t s m by blast
  have c: "unassigned ?E [((0, 0), ''B'')] \<le> 4"
    using t s m unfolding n by blast
  show ?thesis
    by (intro conjI r a b c)
qed

lemma min_element_from_first:
  assumes "\<forall>a \<in> set (s # xs). \<forall>b \<in> set (s # xs). lt a b \<longleftrightarrow> U a \<and> \<not> U b"
  shows "min_element_from lt s xs =
           (if U s then s else case find U xs of Some x \<Rightarrow> x | None \<Rightarrow> s)"
  using assms
proof (induction xs arbitrary: s)
  case Nil
  then show ?case by simp
next
  case (Cons x xs)
  have lt: "lt x s \<longleftrightarrow> U x \<and> \<not> U s"
    using Cons.prems by simp
  show ?case
  proof (cases "U x \<and> \<not> U s")
    case True
    have "\<forall>a \<in> set (x # xs). \<forall>b \<in> set (x # xs). lt a b \<longleftrightarrow> U a \<and> \<not> U b"
      using Cons.prems by simp
    from Cons.IH [OF this] True lt show ?thesis by simp
  next
    case False
    have "\<forall>a \<in> set (s # xs). \<forall>b \<in> set (s # xs). lt a b \<longleftrightarrow> U a \<and> \<not> U b"
      using Cons.prems by simp
    from Cons.IH [OF this] False lt show ?thesis by auto
  qed
qed

lemma min_element_first:
  assumes "\<forall>a \<in> set xs. \<forall>b \<in> set xs. lt a b \<longleftrightarrow> U a \<and> \<not> U b" "\<exists>x \<in> set xs. U x"
  shows "min_element lt xs = find U xs"
proof (cases xs)
  case Nil
  with assms(2) show ?thesis by simp
next
  case (Cons x ys)
  from assms(2) obtain y where "find U xs = Some y"
    by (metis find_None_iff not_Some_eq)
  then show ?thesis
    using min_element_from_first [of x ys lt U] assms(1) unfolding Cons
    by (auto split: if_splits)
qed

lemma cells_Suc: "cells (Suc r) c = cells r c @ map (\<lambda>j. (int r, int j)) [0..<c]"
  by (simp add: cells_def)

lemma cells_sorted:
  "sorted_wrt (\<lambda>p q. fst p < fst q \<or> (fst p = fst q \<and> snd p < snd q)) (cells r c)"
proof (induction r)
  case 0
  show ?case by (simp add: cells_def)
next
  case (Suc r)
  have row: "sorted_wrt (\<lambda>p q. fst p < fst q \<or> (fst p = fst q \<and> snd p < snd q))
      (map (\<lambda>j. (int r, int j)) [0..<c])"
    by (simp add: sorted_wrt_map)
  show ?case
    unfolding cells_Suc sorted_wrt_append
    using Suc row by (auto simp: cells_iff)
qed

lemma first_is_least:
  assumes "sorted_wrt R xs" "find U xs = Some p" "q \<in> set xs" "U q"
  shows "q = p \<or> R p q"
proof -
  from assms(2) obtain i where i: "i < length xs" "p = xs ! i" "\<forall>j<i. \<not> U (xs ! j)"
    unfolding find_Some_iff by blast
  from assms(3) obtain k where k: "k < length xs" "q = xs ! k"
    unfolding in_set_conv_nth by blast
  have "i \<le> k"
  proof (rule ccontr)
    assume "\<not> i \<le> k"
    then have "k < i" by simp
    with i(3) have "\<not> U (xs ! k)" by blast
    with assms(4) k(2) show False by simp
  qed
  show ?thesis
  proof (cases "i = k")
    case True
    then show ?thesis using i(2) k(2) by simp
  next
    case False
    with \<open>i \<le> k\<close> have "i < k" by simp
    then have "R (xs ! i) (xs ! k)"
      by (rule sorted_wrt_nth_less [OF assms(1) _ k(1)])
    then show ?thesis unfolding i(2) k(2) by (rule disjI2)
  qed
qed

text \<open>
  Claim C9: with the domains that \<^verbatim>\<open>shuffle\<close> builds (one permutation of all labels per
  position, never narrowed), whenever some non-empty position is unassigned the
  selected position is the first unassigned element of \<^verbatim>\<open>non_empty_positions\<close>, and
  that is the least unassigned non-empty position in row-major order.
\<close>

theorem selection_is_first_unassigned:
  assumes "reachable g E" "is_shuffler mt"
    and "\<exists>p \<in> set (non_empty_positions E). map_of current_assignment p = None"
  shows "\<exists>pos. select_position E (init_domains E mt) current_assignment = Some pos \<and>
           find (\<lambda>p. map_of current_assignment p = None) (non_empty_positions E) = Some pos \<and>
           pos \<in> set (non_empty_positions E) \<and> map_of current_assignment pos = None \<and>
           (\<forall>q \<in> set (non_empty_positions E).
              map_of current_assignment q = None \<longrightarrow> row_major_le pos q)"
proof -
  let ?U = "\<lambda>p. map_of current_assignment p = None"
  let ?pd = "init_domains E mt"
  have len: "length (lookup_default ?pd a []) = length (all_digits E)"
    if "a \<in> set (non_empty_positions E)" for a
  proof -
    have "mset (mt a (all_digits E)) = mset (all_digits E)"
      using assms(2) unfolding is_shuffler_def by blast
    then have "length (mt a (all_digits E)) = length (all_digits E)"
      by (rule mset_eq_length)
    then show ?thesis
      using that unfolding init_domains_lookup by simp
  qed
  have cmp: "\<forall>a \<in> set (non_empty_positions E). \<forall>b \<in> set (non_empty_positions E).
      mrv_less ?pd current_assignment a b \<longleftrightarrow> ?U a \<and> \<not> ?U b"
  proof (intro ballI)
    fix a b
    assume "a \<in> set (non_empty_positions E)" "b \<in> set (non_empty_positions E)"
    then have "length (lookup_default ?pd a []) = length (lookup_default ?pd b [])"
      using len by simp
    then show "mrv_less ?pd current_assignment a b \<longleftrightarrow> ?U a \<and> \<not> ?U b"
      unfolding mrv_less_def by simp
  qed
  have sel: "select_position E ?pd current_assignment = find ?U (non_empty_positions E)"
    unfolding select_position_def by (rule min_element_first [OF cmp assms(3)])
  have "find ?U (non_empty_positions E) \<noteq> None"
    unfolding find_None_iff using assms(3) by blast
  then obtain pos where f: "find ?U (non_empty_positions E) = Some pos"
    by blast
  then have mem: "pos \<in> set (non_empty_positions E)" "?U pos"
    unfolding find_Some_iff by auto
  have srt: "sorted_wrt (\<lambda>p q. fst p < fst q \<or> (fst p = fst q \<and> snd p < snd q))
      (non_empty_positions E)"
    unfolding reachable_fields(4) [OF assms(1)] by (intro sorted_wrt_filter cells_sorted)
  have le: "row_major_le pos q" if "q \<in> set (non_empty_positions E)" "?U q" for q
  proof -
    from first_is_least [OF srt f that]
    have "q = pos \<or> fst pos < fst q \<or> (fst pos = fst q \<and> snd pos < snd q)" .
    then show ?thesis unfolding row_major_le_def by auto
  qed
  show ?thesis
  proof (intro exI [of _ pos] conjI ballI impI)
    show "select_position E ?pd current_assignment = Some pos" using sel f by simp
    show "find ?U (non_empty_positions E) = Some pos" by (rule f)
    show "pos \<in> set (non_empty_positions E)" by (rule mem(1))
    show "map_of current_assignment pos = None" by (rule mem(2))
    show "row_major_le pos q"
      if "q \<in> set (non_empty_positions E)" "map_of current_assignment q = None" for q
      using le that by blast
  qed
qed

theorem selection_is_first_unassigned_witness:
  "select_position (engine [[''A'', ''B''], [''C'', ''D'']])
     (init_domains (engine [[''A'', ''B''], [''C'', ''D'']]) (\<lambda>pos xs. rev xs))
     [((0, 0), ''B''), ((1, 0), ''D'')] = Some (0, 1) \<and>
   row_major_le (0, 1) (1, 1)"
proof -
  let ?G = "[[''A'', ''B''], [''C'', ''D'']]"
  let ?asg = "[((0, 0), ''B''), ((1, 0), ''D'')] :: Assignment"
  have c: "construct ?G = Inr (engine ?G)" by code_simp
  have mt: "is_shuffler (\<lambda>pos xs. rev xs)" by (simp add: is_shuffler_def)
  have n: "non_empty_positions (engine ?G) = [(0, 0), (0, 1), (1, 0), (1, 1)]" by code_simp
  have u: "\<exists>p \<in> set (non_empty_positions (engine ?G)). map_of ?asg p = None"
    unfolding n by simp
  have f: "find (\<lambda>p. map_of ?asg p = None) (non_empty_positions (engine ?G)) = Some (0, 1)"
    unfolding n by simp
  have q: "(1, 1) \<in> set (non_empty_positions (engine ?G))" "map_of ?asg (1, 1) = None"
    unfolding n by simp_all
  from selection_is_first_unassigned [OF reachable.constructed [OF c] mt u] f q
  show ?thesis by auto
qed

subsection \<open>Repeated labels\<close>

text \<open>
  The spec's data model assumes that no two non-empty cells share a label and leaves
  grids with a repeated label unmodelled; the constructor accepts them.  The three
  evaluations below record what the code does on such grids.
\<close>

text \<open>
  A label that occurs twice may stay in its first cell: \<^verbatim>\<open>original_positions\<close> keeps
  one position per label, the last in row-major order.
\<close>

theorem duplicate_label_keeps_its_cell:
  "construct [[''A'', [], ''A'', [], ''B'']] = Inr (engine [[''A'', [], ''A'', [], ''B'']]) \<and>
   fst (shuffle (engine [[''A'', [], ''A'', [], ''B'']]) (\<lambda>pos xs. xs)) \<and>
   getShuffledGrid (snd (shuffle (engine [[''A'', [], ''A'', [], ''B'']]) (\<lambda>pos xs. xs)))
     = [[''A'', [], ''B'', [], ''A'']] \<and>
   cell (getShuffledGrid (snd (shuffle (engine [[''A'', [], ''A'', [], ''B'']]) (\<lambda>pos xs. xs)))) (0, 0)
     = cell [[''A'', [], ''A'', [], ''B'']] (0, 0)"
  by code_simp

text \<open>
  \<^verbatim>\<open>buildForbiddenNeighbors\<close> resets the set of a label at each of its occurrences, so
  with a repeated label the index is not symmetric and the one-directional check of
  the search lets a forbidden pair through.
\<close>

theorem duplicate_label_meets_forbidden_neighbour:
  "construct [[''X'', ''Y'', [], ''X'']] = Inr (engine [[''X'', ''Y'', [], ''X'']]) \<and>
   fst (shuffle (engine [[''X'', ''Y'', [], ''X'']]) (\<lambda>pos xs. rev xs)) \<and>
   getShuffledGrid (snd (shuffle (engine [[''X'', ''Y'', [], ''X'']]) (\<lambda>pos xs. rev xs)))
     = [[''Y'', ''X'', [], ''Y'']] \<and>
   adjacent (0, 0) (0, 1) \<and>
   forbidden_of (snd (shuffle (engine [[''X'', ''Y'', [], ''X'']]) (\<lambda>pos xs. rev xs))) ''Y'' = {''X''} \<and>
   cell (getShuffledGrid (snd (shuffle (engine [[''X'', ''Y'', [], ''X'']]) (\<lambda>pos xs. rev xs)))) (0, 1)
     \<in> forbidden_of (snd (shuffle (engine [[''X'', ''Y'', [], ''X'']]) (\<lambda>pos xs. rev xs)))
          (cell (getShuffledGrid (snd (shuffle (engine [[''X'', ''Y'', [], ''X'']]) (\<lambda>pos xs. rev xs)))) (0, 0))"
  by code_simp

text \<open>
  On such a grid the validator, which reads the index from every position, can refuse
  what the search accepted.
\<close>

theorem duplicate_label_fails_validation:
  "construct [[''X''], [''Y''], [[]], [''X'']] = Inr (engine [[''X''], [''Y''], [[]], [''X'']]) \<and>
   fst (shuffle (engine [[''X''], [''Y''], [[]], [''X'']]) (\<lambda>pos xs. rev xs)) \<and>
   getShuffledGrid (snd (shuffle (engine [[''X''], [''Y''], [[]], [''X'']]) (\<lambda>pos xs. rev xs)))
     = [[''Y''], [''X''], [[]], [''Y'']] \<and>
   validateResult (snd (shuffle (engine [[''X''], [''Y''], [[]], [''X'']]) (\<lambda>pos xs. rev xs)))
     = Inr False"
  by code_simp

end
